theory Spec2Isabelle
  imports Main "HOL-Library.Sublist"
begin

section \<open>Text\<close>

text \<open>
  A Python \<open>str\<close> is a sequence of Unicode code points; it is modelled as a list of
  natural numbers, one per code point.  \<open>lit\<close> turns an ASCII literal into such a list.
\<close>

type_synonym str = "nat list"

definition lit :: "string \<Rightarrow> str" where
  "lit s = map of_char s"

text \<open>
  \<open>str.isspace\<close> for a single code point; the same set is what \<open>str.strip()\<close> removes
  and what the whitespace class of the regular expressions matches in a \<open>str\<close> pattern.
\<close>

definition isspace :: "nat \<Rightarrow> bool" where
  "isspace c \<longleftrightarrow>
     (9 \<le> c \<and> c \<le> 13) \<or> (28 \<le> c \<and> c \<le> 32) \<or> c = 133 \<or> c = 160 \<or> c = 5760 \<or>
     (8192 \<le> c \<and> c \<le> 8202) \<or> c = 8232 \<or> c = 8233 \<or> c = 8239 \<or> c = 8287 \<or> c = 12288"

text \<open>\<open>s.strip()\<close>: leading and trailing whitespace removed.\<close>

definition strip :: "str \<Rightarrow> str" where
  "strip s = rev (dropWhile isspace (rev (dropWhile isspace s)))"

text \<open>\<open>s.split("\n")\<close>: never empty; a trailing newline gives a trailing empty line.\<close>

fun split_nl :: "str \<Rightarrow> str list" where
  "split_nl [] = [[]]"
| "split_nl (c # cs) =
     (if c = 10 then [] # split_nl cs
      else (c # hd (split_nl cs)) # tl (split_nl cs))"

text \<open>\<open>"\n".join(ls)\<close>.\<close>

fun join_nl :: "str list \<Rightarrow> str" where
  "join_nl [] = []"
| "join_nl [l] = l"
| "join_nl (l # ls) = l @ 10 # join_nl ls"

text \<open>\<open>xs[-n:]\<close> for a positive \<open>n\<close>: the last \<open>n\<close> elements, all of them when there are fewer.\<close>

definition last_n :: "nat \<Rightarrow> 'a list \<Rightarrow> 'a list" where
  "last_n n xs = drop (length xs - n) xs"

text \<open>\<open>needle in hay\<close> on strings: \<open>needle\<close> occurs as a contiguous substring.\<close>

fun contains :: "str \<Rightarrow> str \<Rightarrow> bool" where
  "contains needle [] = (needle = [])"
| "contains needle (c # cs) = (prefix needle (c # cs) \<or> contains needle cs)"

text \<open>
  \<open>s.lower()\<close>.  ASCII capitals are lowered; of the code points outside ASCII only two
  have a lowercase form that contains an ASCII letter: U+0130 (to \<open>i\<close> followed by U+0307)
  and U+212A, the Kelvin sign (to \<open>k\<close>).  Every other code point lowers to code points
  outside ASCII and is left as it is: the source only searches the result for ASCII
  needles, which that choice cannot affect.
\<close>

definition lower_cp :: "nat \<Rightarrow> str" where
  "lower_cp c =
     (if 65 \<le> c \<and> c \<le> 90 then [c + 32]
      else if c = 304 then [105, 775]
      else if c = 8490 then [107]
      else [c])"

definition lower :: "str \<Rightarrow> str" where
  "lower s = concat (map lower_cp s)"

section \<open>Output buffer\<close>

definition MAX_BUFFER_LINES :: nat where
  "MAX_BUFFER_LINES = 200"

text \<open>
  The two buffer statements of \<open>stream_output\<close>:
  \<^verbatim>\<open>output_buffers[ticket].extend(new_content.split("\n"))\<close> and
  \<^verbatim>\<open>output_buffers[ticket] = output_buffers[ticket][-MAX_BUFFER_LINES:]\<close>.
\<close>

definition buffer_append :: "str list \<Rightarrow> str \<Rightarrow> str list" where
  "buffer_append buf new_content = last_n MAX_BUFFER_LINES (buf @ split_nl new_content)"

text \<open>A buffer starts empty and then only ever changes through \<open>buffer_append\<close>.\<close>

definition buffer_after :: "str list \<Rightarrow> str list" where
  "buffer_after deltas = foldl buffer_append [] deltas"

section \<open>Regular expressions\<close>

text \<open>
  The patterns of the source use literal characters, the whitespace class, the star and
  non-capturing alternation.  \<open>re.search\<close> is read for its truth value only, so a pattern
  is modelled by the language it denotes and matched with derivatives.
\<close>

datatype regex =
    Zero
  | One
  | Chr nat
  | Space
  | Alt regex regex
  | Cat regex regex
  | Star regex

text \<open>A literal string as a pattern, and an alternation of several patterns.\<close>

fun word :: "str \<Rightarrow> regex" where
  "word [] = One"
| "word [c] = Chr c"
| "word (c # cs) = Cat (Chr c) (word cs)"

fun alts :: "regex list \<Rightarrow> regex" where
  "alts [] = Zero"
| "alts [r] = r"
| "alts (r # rs) = Alt r (alts rs)"

fun cats :: "regex list \<Rightarrow> regex" where
  "cats [] = One"
| "cats [r] = r"
| "cats (r # rs) = Cat r (cats rs)"

text \<open>
  The simple lowercase mapping that \<open>re.IGNORECASE\<close> applies to one code point of the
  subject, given for the code points that map into ASCII (the others cannot meet an ASCII
  pattern character).
\<close>

definition tolower :: "nat \<Rightarrow> nat" where
  "tolower c =
     (if 65 \<le> c \<and> c \<le> 90 then c + 32
      else if c = 304 then 105
      else if c = 8490 then 107
      else c)"

text \<open>
  One pattern character against one subject code point.  Without the flag the two must be
  equal.  With \<open>re.IGNORECASE\<close> the lowered subject must equal the lowered pattern
  character; in addition \<open>i\<close> also accepts U+0131 and \<open>s\<close> also accepts U+017F.
\<close>

definition chr_matches :: "bool \<Rightarrow> nat \<Rightarrow> nat \<Rightarrow> bool" where
  "chr_matches ic p c \<longleftrightarrow>
     (if ic then tolower c = tolower p \<or> (tolower p = 105 \<and> c = 305) \<or> (tolower p = 115 \<and> c = 383)
      else c = p)"

fun nullable :: "regex \<Rightarrow> bool" where
  "nullable Zero = False"
| "nullable One = True"
| "nullable (Chr p) = False"
| "nullable Space = False"
| "nullable (Alt r s) = (nullable r \<or> nullable s)"
| "nullable (Cat r s) = (nullable r \<and> nullable s)"
| "nullable (Star r) = True"

text \<open>
  Alternation and concatenation that drop an empty language at once, so that a derivative
  which can no longer match is literally \<open>Zero\<close>.
\<close>

fun alt :: "regex \<Rightarrow> regex \<Rightarrow> regex" where
  "alt Zero s = s"
| "alt r Zero = r"
| "alt r s = Alt r s"

fun cat :: "regex \<Rightarrow> regex \<Rightarrow> regex" where
  "cat Zero s = Zero"
| "cat One s = s"
| "cat r s = Cat r s"

text \<open>The derivative: what is left of the pattern after reading the code point \<open>c\<close>.\<close>

fun deriv :: "bool \<Rightarrow> nat \<Rightarrow> regex \<Rightarrow> regex" where
  "deriv ic c Zero = Zero"
| "deriv ic c One = Zero"
| "deriv ic c (Chr p) = (if chr_matches ic p c then One else Zero)"
| "deriv ic c Space = (if isspace c then One else Zero)"
| "deriv ic c (Alt r s) = alt (deriv ic c r) (deriv ic c s)"
| "deriv ic c (Cat r s) =
     (if nullable r then alt (cat (deriv ic c r) s) (deriv ic c s)
      else cat (deriv ic c r) s)"
| "deriv ic c (Star r) = cat (deriv ic c r) (Star r)"

text \<open>\<open>re.match\<close>: some prefix of the subject is in the language of the pattern.\<close>

fun re_match :: "bool \<Rightarrow> regex \<Rightarrow> str \<Rightarrow> bool" where
  "re_match ic Zero cs = False"
| "re_match ic r [] = nullable r"
| "re_match ic r (c # cs) = (nullable r \<or> re_match ic (deriv ic c r) cs)"

text \<open>\<open>re.search\<close>: a match starts at some position of the subject.\<close>

fun re_search :: "bool \<Rightarrow> regex \<Rightarrow> str \<Rightarrow> bool" where
  "re_search ic r [] = nullable r"
| "re_search ic r (c # cs) = (re_match ic r (c # cs) \<or> re_search ic r cs)"

text \<open>
  The language of a pattern, as the reference for the matcher: the set of texts that the
  pattern matches from their first to their last code point.
\<close>

inductive_set star :: "str set \<Rightarrow> str set" for A :: "str set" where
  star_empty: "[] \<in> star A"
| star_more: "u \<in> A \<Longrightarrow> v \<in> star A \<Longrightarrow> u @ v \<in> star A"

fun lang :: "bool \<Rightarrow> regex \<Rightarrow> str set" where
  "lang ic Zero = {}"
| "lang ic One = {[]}"
| "lang ic (Chr p) = {w. \<exists>c. w = [c] \<and> chr_matches ic p c}"
| "lang ic Space = {w. \<exists>c. w = [c] \<and> isspace c}"
| "lang ic (Alt r s) = lang ic r \<union> lang ic s"
| "lang ic (Cat r s) = {w. \<exists>u v. w = u @ v \<and> u \<in> lang ic r \<and> v \<in> lang ic s}"
| "lang ic (Star r) = star (lang ic r)"

section \<open>Prompt patterns\<close>

text \<open>\<open>PERMISSION_PATTERNS\<close>, in the order of the source.  10095 is U+276F.\<close>

definition PERMISSION_PATTERNS :: "regex list" where
  "PERMISSION_PATTERNS =
    [ word (lit ''Do you want to proceed?''),
      cats [Chr 10095, Star Space, word (lit ''1.''), Star Space, word (lit ''Yes'')],
      word (lit ''Yes, and don't ask again''),
      word (lit ''Allow this action?''),
      word (lit ''Proceed with this''),
      word (lit ''[Y/n]''),
      word (lit ''(y/N)''),
      word (lit ''Press Enter to continue'') ]"

text \<open>\<open>HUMAN_NEEDED_PATTERNS\<close>, in the order of the source.\<close>

definition HUMAN_NEEDED_PATTERNS :: "regex list" where
  "HUMAN_NEEDED_PATTERNS =
    [ word (lit ''Type here to tell Claude''),
      cats [word (lit ''3.''), Star Space, word (lit ''Type here'')],
      Cat (word (lit ''which ''))
          (alts [word (lit ''approach''), word (lit ''option''), word (lit ''method''), word (lit ''one'')]),
      cats [alts [word (lit ''choose''), word (lit ''select''), word (lit ''pick'')],
            Chr 32,
            alts [word (lit ''one''), word (lit ''between''), word (lit ''from'')]],
      word (lit ''What should''),
      word (lit ''How would you like''),
      word (lit ''Do you want me to''),
      word (lit ''Should I''),
      Cat (word (lit ''multiple ''))
          (alts [word (lit ''options''), word (lit ''approaches''), word (lit ''ways'')]) ]"

definition is_permission_prompt :: "str \<Rightarrow> bool" where
  "is_permission_prompt output = list_ex (\<lambda>p. re_search False p output) PERMISSION_PATTERNS"

definition needs_human_decision :: "str \<Rightarrow> bool" where
  "needs_human_decision output = list_ex (\<lambda>p. re_search True p output) HUMAN_NEEDED_PATTERNS"

section \<open>Session records\<close>

datatype SessionState =
  STARTING | SPECIFY | CLARIFY_NEEDED | PLANNING | PLAN_REVIEW | TASKING | IMPLEMENTING | DONE | ERROR

datatype ClaudeMode = PLANNING | AUTO_ACCEPT

type_synonym datetime = nat

record SessionStatus =
  ticket :: str
  state :: SessionState
  message :: "str option"
  updated_at :: datetime
  linear_pulled :: bool
  specify_done :: bool
  clarify_done :: bool
  plan_done :: bool
  tasks_done :: bool
  implement_done :: bool
  auto_accept :: bool
  needs_attention :: bool
  linear_title :: str
  linear_description :: str
  in_grid :: bool
  claude_mode :: ClaudeMode

record SafetyCheckResponse =
  needs_clarification :: bool
  safe_to_continue :: bool
  reason :: str

text \<open>
  \<open>SessionStatus(ticket=t)\<close>: every other field takes its default.  The default of
  \<open>updated_at\<close> is \<open>datetime.now()\<close> evaluated once, when the class body runs; that instant
  is the parameter \<open>loaded\<close>.
\<close>

definition new_SessionStatus :: "datetime \<Rightarrow> str \<Rightarrow> SessionStatus" where
  "new_SessionStatus loaded t =
     \<lparr> ticket = t, state = STARTING, message = None, updated_at = loaded,
       linear_pulled = False, specify_done = False, clarify_done = False,
       plan_done = False, tasks_done = False, implement_done = False,
       auto_accept = False, needs_attention = False,
       linear_title = [], linear_description = [],
       in_grid = False, claude_mode = ClaudeMode.PLANNING \<rparr>"

section \<open>Collaborators and server state\<close>

text \<open>An exception is represented by its message, \<open>str(e)\<close>.\<close>

type_synonym exn = str

text \<open>
  One \<open>subprocess.run(["tmux", "send-keys", "-t", ticket, ...], check=True, timeout=5)\<close>:
  \<open>SendKeys t k\<close> sends the key named \<open>k\<close>, \<open>SendLiteral t s\<close> is the call with \<open>-l\<close>.
\<close>

datatype tmux_call = SendKeys str str | SendLiteral str str

text \<open>The JSON object handed to \<open>websocket.send_json\<close>; its \<open>type\<close> is always \<open>output\<close>.\<close>

record event =
  ev_ticket :: str
  ev_content :: str
  ev_needs_attention :: bool
  ev_auto_accepted :: bool

text \<open>
  \<open>send_json\<close> returns, raises \<open>WebSocketDisconnect\<close>, or raises another exception.
\<close>

datatype send_result = Sent | Disconnected | SendRaised

text \<open>
  What the server does not own.  \<open>llm_client\<close> is the global of that name, set once at
  start-up: \<open>None\<close>, or the function that performs \<open>chat.completions.create\<close> on the user
  message (the system message is a constant) and yields
  \<open>response.choices[0].message.content\<close> or raises.  \<open>loads_validate\<close> stands for the library
  step \<open>SafetyCheckResponse(**json.loads(content))\<close>, which yields a response or raises.
  \<open>tmux_run\<close> tells whether a \<open>tmux\<close> call returns normally (\<open>False\<close>: it raises).
\<close>

record env =
  class_loaded :: datetime
  llm_client :: "(str \<Rightarrow> exn + str option) option"
  loads_validate :: "str \<Rightarrow> exn + SafetyCheckResponse"
  tmux_run :: "tmux_call \<Rightarrow> bool"
  send_json :: "event \<Rightarrow> send_result"

text \<open>The two module-level dictionaries that the modelled functions read and write.\<close>

record server =
  sessions :: "str \<rightharpoonup> SessionStatus"
  output_buffers :: "str \<rightharpoonup> str list"

section \<open>Safety check\<close>

text \<open>The two expressions that both fallback branches of \<open>check_safety\<close> compute.\<close>

definition heuristic_needs_clarification :: "str \<Rightarrow> bool" where
  "heuristic_needs_clarification output \<longleftrightarrow>
     contains (lit ''?'') output \<or> contains (lit ''would you like'') (lower output)"

definition heuristic_dangerous :: "str \<Rightarrow> bool" where
  "heuristic_dangerous output \<longleftrightarrow>
     list_ex (\<lambda>p. contains p (lower output))
       [lit ''delete'', lit ''rm -rf'', lit ''force push'', lit ''drop table'']"

text \<open>
  The body of the \<open>try\<close> block: the context is built from the last 50 buffered lines, the
  service is called, its content (\<open>{}\<close> when absent or empty) is parsed and validated.
  \<open>Inl e\<close> when any step raises \<open>e\<close>.
\<close>

definition ask_llm :: "env \<Rightarrow> (str \<Rightarrow> exn + str option) \<Rightarrow> server \<Rightarrow> str \<Rightarrow> str \<Rightarrow> exn + SafetyCheckResponse" where
  "ask_llm e client srv t output =
     (let context = join_nl (last_n 50 (case output_buffers srv t of None \<Rightarrow> [] | Some b \<Rightarrow> b));
          user = lit ''Session: '' @ t @ [10] @ lit ''Context:'' @ [10] @ context @ [10, 10]
                 @ lit ''Latest output:'' @ [10] @ output
      in case client user of
           Inl ex \<Rightarrow> Inl ex
         | Inr content \<Rightarrow>
             loads_validate e
               (case content of
                  None \<Rightarrow> lit ''{}''
                | Some c \<Rightarrow> if c = [] then lit ''{}'' else c))"

definition check_safety :: "env \<Rightarrow> server \<Rightarrow> str \<Rightarrow> str \<Rightarrow> SafetyCheckResponse" where
  "check_safety e srv t output =
     (case llm_client e of
        None \<Rightarrow>
          \<lparr> needs_clarification = heuristic_needs_clarification output,
            safe_to_continue = (\<not> heuristic_dangerous output),
            reason = lit ''Pattern match (no LLM configured)'' \<rparr>
      | Some client \<Rightarrow>
          (case ask_llm e client srv t output of
             Inr result \<Rightarrow> result
           | Inl ex \<Rightarrow>
               \<lparr> needs_clarification = heuristic_needs_clarification output,
                 safe_to_continue = True,
                 reason = lit ''Safety check failed: '' @ ex \<rparr>))"

section \<open>Auto-accept\<close>

text \<open>
  \<open>auto_accept_if_safe\<close> returns its boolean together with the \<open>tmux\<close> calls it made, in
  order.  A call that raises ends the \<open>try\<close> block: the calls after it are not made and the
  function returns \<open>False\<close>.
\<close>

definition auto_accept_if_safe :: "env \<Rightarrow> server \<Rightarrow> str \<Rightarrow> str \<Rightarrow> bool \<times> tmux_call list" where
  "auto_accept_if_safe e srv t output =
     (case sessions srv t of
        None \<Rightarrow> (False, [])
      | Some s \<Rightarrow>
          if \<not> auto_accept s then (False, [])
          else if \<not> is_permission_prompt output then (False, [])
          else if needs_human_decision output then (False, [])
          else
            (let safety = check_safety e srv t output in
             if safe_to_continue safety \<and> \<not> needs_clarification safety then
               (let c1 = SendKeys t (lit ''C-u'');
                    c2 = SendLiteral t (lit ''1'');
                    c3 = SendKeys t (lit ''Enter'')
                in if \<not> tmux_run e c1 then (False, [c1])
                   else if \<not> tmux_run e c2 then (False, [c1, c2])
                   else if \<not> tmux_run e c3 then (False, [c1, c2, c3])
                   else (True, [c1, c2, c3]))
             else (False, [])))"

section \<open>Output polling\<close>

text \<open>
  The outcome of the \<open>tmux capture-pane\<close> call of one iteration: it raises (a timeout, for
  one), or it returns an exit code and the captured text.
\<close>

datatype capture = CaptureRaised | Captured int str

text \<open>
  The delta: what follows the previous snapshot when the new one starts with it, the whole
  new snapshot otherwise.
\<close>

definition new_content_of :: "str \<Rightarrow> str \<Rightarrow> str" where
  "new_content_of last_output current_output =
     (if prefix last_output current_output then drop (length last_output) current_output
      else current_output)"

text \<open>
  What one iteration of the loop of \<open>stream_output\<close> leaves behind: whether the loop goes
  on, the dictionaries, the local \<open>last_output\<close>, the \<open>tmux send-keys\<close> calls made, the text
  that was handed to \<open>auto_accept_if_safe\<close> (if it was called), and the event handed to
  \<open>send_json\<close> (if any).
\<close>

record iteration =
  goes_on :: bool
  server_after :: server
  last_output_after :: str
  tmux_calls :: "tmux_call list"
  auto_accept_input :: "str option"
  event_out :: "event option"

definition idle :: "bool \<Rightarrow> server \<Rightarrow> str \<Rightarrow> iteration" where
  "idle go srv last_output =
     \<lparr> goes_on = go, server_after = srv, last_output_after = last_output,
       tmux_calls = [], auto_accept_input = None, event_out = None \<rparr>"

text \<open>
  \<open>sessions[ticket].needs_attention = v\<close> under the guard \<open>if ticket in sessions\<close>.
\<close>

definition set_needs_attention :: "str \<Rightarrow> bool \<Rightarrow> server \<Rightarrow> server" where
  "set_needs_attention t v srv =
     (case sessions srv t of
        None \<Rightarrow> srv
      | Some s \<Rightarrow> srv\<lparr>sessions := (sessions srv)(t \<mapsto> s\<lparr>needs_attention := v\<rparr>)\<rparr>)"

text \<open>
  One iteration of the \<open>while True\<close> loop.  An exception other than
  \<open>WebSocketDisconnect\<close> is swallowed by the handler of the loop, which sleeps and goes on
  with \<open>last_output\<close> as it was.
\<close>

definition stream_output_iteration :: "env \<Rightarrow> str \<Rightarrow> capture \<Rightarrow> server \<Rightarrow> str \<Rightarrow> iteration" where
  "stream_output_iteration e t cap srv last_output =
     (case cap of
        CaptureRaised \<Rightarrow> idle True srv last_output
      | Captured returncode current_output \<Rightarrow>
          if returncode \<noteq> 0 then idle False srv last_output
          else if current_output = last_output then idle True srv last_output
          else
            (let new_content = new_content_of last_output current_output in
             if strip new_content = [] then idle True srv current_output
             else
               (let buf = (case output_buffers srv t of None \<Rightarrow> [] | Some b \<Rightarrow> b);
                    srv1 = srv\<lparr>output_buffers := (output_buffers srv)(t \<mapsto> buffer_append buf new_content)\<rparr>;
                    accepted = auto_accept_if_safe e srv1 t current_output;
                    auto_accepted = fst accepted;
                    srv2 = (if \<not> auto_accepted
                            then set_needs_attention t
                                   (needs_clarification (check_safety e srv1 t new_content)) srv1
                            else set_needs_attention t False srv1);
                    ev = \<lparr> ev_ticket = t, ev_content = new_content,
                           ev_needs_attention =
                             (case sessions srv2 t of None \<Rightarrow> False | Some s \<Rightarrow> needs_attention s),
                           ev_auto_accepted = auto_accepted \<rparr>;
                    sent = send_json e ev
                in \<lparr> goes_on = (sent \<noteq> Disconnected),
                     server_after = srv2,
                     last_output_after = (if sent = Sent then current_output else last_output),
                     tmux_calls = snd accepted,
                     auto_accept_input = Some current_output,
                     event_out = Some ev \<rparr>)))"

text \<open>
  The loop, run on the outcomes of its successive captures.  It starts from the given
  \<open>last_output\<close> (the empty string in the source) and stops at a \<open>break\<close>; the result is the
  dictionaries and \<open>last_output\<close> as the loop leaves them.
\<close>

fun stream_output :: "env \<Rightarrow> str \<Rightarrow> capture list \<Rightarrow> server \<Rightarrow> str \<Rightarrow> server \<times> str" where
  "stream_output e t [] srv last_output = (srv, last_output)"
| "stream_output e t (cap # caps) srv last_output =
     (let it = stream_output_iteration e t cap srv last_output in
      if goes_on it then stream_output e t caps (server_after it) (last_output_after it)
      else (server_after it, last_output_after it))"

section \<open>Registry operations\<close>

text \<open>
  \<open>if ticket not in sessions: sessions[ticket] = SessionStatus(ticket=ticket)\<close>, the first
  statement of the three write operations.
\<close>

definition ensure_session :: "env \<Rightarrow> str \<Rightarrow> server \<Rightarrow> server" where
  "ensure_session e t srv =
     (case sessions srv t of
        None \<Rightarrow> srv\<lparr>sessions := (sessions srv)(t \<mapsto> new_SessionStatus (class_loaded e) t)\<rparr>
      | Some s \<Rightarrow> srv)"

text \<open>\<open>sessions[ticket].field = ...\<close> on a record that exists.\<close>

definition modify_session :: "str \<Rightarrow> (SessionStatus \<Rightarrow> SessionStatus) \<Rightarrow> server \<Rightarrow> server" where
  "modify_session t f srv =
     (case sessions srv t of
        None \<Rightarrow> srv
      | Some s \<Rightarrow> srv\<lparr>sessions := (sessions srv)(t \<mapsto> f s)\<rparr>)"

text \<open>
  \<open>stage_map\<close> followed by \<open>setattr\<close>: the stage name selects the field that is written.
\<close>

definition stage_map :: "str \<rightharpoonup> (bool \<Rightarrow> SessionStatus \<Rightarrow> SessionStatus)" where
  "stage_map = map_of
     [ (lit ''linear'', \<lambda>d s. s\<lparr>linear_pulled := d\<rparr>),
       (lit ''specify'', \<lambda>d s. s\<lparr>specify_done := d\<rparr>),
       (lit ''clarify'', \<lambda>d s. s\<lparr>clarify_done := d\<rparr>),
       (lit ''plan'', \<lambda>d s. s\<lparr>plan_done := d\<rparr>),
       (lit ''tasks'', \<lambda>d s. s\<lparr>tasks_done := d\<rparr>),
       (lit ''implement'', \<lambda>d s. s\<lparr>implement_done := d\<rparr>) ]"

text \<open>The three operations return their response (the value of \<open>ok\<close>) and the new state.\<close>

definition update_stage :: "env \<Rightarrow> str \<Rightarrow> str \<Rightarrow> bool \<Rightarrow> server \<Rightarrow> bool \<times> server" where
  "update_stage e t stage done srv =
     (let srv1 = ensure_session e t srv in
      case stage_map stage of
        Some setattr \<Rightarrow> (True, modify_session t (setattr done) srv1)
      | None \<Rightarrow> (True, srv1))"

definition set_linear_info :: "env \<Rightarrow> str \<Rightarrow> str \<Rightarrow> str \<Rightarrow> server \<Rightarrow> bool \<times> server" where
  "set_linear_info e t title description srv =
     (let srv1 = ensure_session e t srv;
          srv2 = modify_session t (\<lambda>s. s\<lparr>linear_title := title\<rparr>) srv1;
          srv3 = modify_session t (\<lambda>s. s\<lparr>linear_description := description\<rparr>) srv2
      in (True, srv3))"

text \<open>\<open>set_claude_mode\<close> also echoes the mode string it was given.\<close>

definition set_claude_mode :: "env \<Rightarrow> str \<Rightarrow> str \<Rightarrow> server \<Rightarrow> (bool \<times> str) \<times> server" where
  "set_claude_mode e t mode srv =
     (let srv1 = ensure_session e t srv;
          srv2 = (if mode = lit ''auto_accept''
                  then modify_session t (\<lambda>s. s\<lparr>auto_accept := True\<rparr>)
                         (modify_session t (\<lambda>s. s\<lparr>claude_mode := AUTO_ACCEPT\<rparr>) srv1)
                  else modify_session t (\<lambda>s. s\<lparr>auto_accept := False\<rparr>)
                         (modify_session t (\<lambda>s. s\<lparr>claude_mode := ClaudeMode.PLANNING\<rparr>) srv1))
      in ((True, mode), srv2))"

text \<open>
  The registration loop of \<open>start_session\<close> (and of \<open>lifespan\<close>): a ticket that has no
  record gets a default record and an empty buffer; a ticket that has one is left alone.
\<close>

fun register_tickets :: "env \<Rightarrow> str list \<Rightarrow> server \<Rightarrow> server" where
  "register_tickets e [] srv = srv"
| "register_tickets e (t # ts) srv =
     register_tickets e ts
       (case sessions srv t of
          None \<Rightarrow> srv\<lparr> sessions := (sessions srv)(t \<mapsto> new_SessionStatus (class_loaded e) t),
                      output_buffers := (output_buffers srv)(t \<mapsto> []) \<rparr>
        | Some s \<Rightarrow> srv)"

section \<open>Invariant and scenarios\<close>

text \<open>The buffer of a ticket, when there is one, holds at most \<open>MAX_BUFFER_LINES\<close> lines.\<close>

definition buffer_bounded :: "server \<Rightarrow> str \<Rightarrow> bool" where
  "buffer_bounded srv t =
     (case output_buffers srv t of None \<Rightarrow> True | Some b \<Rightarrow> length b \<le> MAX_BUFFER_LINES)"

text \<open>The six stage flags of a record, in the order of their declaration.\<close>

definition stage_flags :: "SessionStatus \<Rightarrow> bool list" where
  "stage_flags s =
     [linear_pulled s, specify_done s, clarify_done s, plan_done s, tasks_done s, implement_done s]"

text \<open>
  Concrete collaborators and states, used to run the model.  In \<open>no_llm\<close> no
  classification service is configured, every \<open>tmux\<close> call succeeds and every event is
  delivered.  The other environments differ from it in one collaborator each.
\<close>

definition no_llm :: env where
  "no_llm =
     \<lparr> class_loaded = 0, llm_client = None,
       loads_validate = (\<lambda>c. Inl (lit ''Expecting value'')),
       tmux_run = (\<lambda>c. True), send_json = (\<lambda>ev. Sent) \<rparr>"

definition llm_unreachable :: env where
  "llm_unreachable = no_llm\<lparr>llm_client := Some (\<lambda>user. Inl (lit ''Connection error.''))\<rparr>"

definition llm_garbled :: env where
  "llm_garbled = no_llm\<lparr>llm_client := Some (\<lambda>user. Inr (Some (lit ''not json'')))\<rparr>"

definition llm_approves :: env where
  "llm_approves =
     no_llm\<lparr> llm_client := Some (\<lambda>user. Inr (Some (lit ''{...}''))),
             loads_validate := (\<lambda>c. Inr \<lparr> needs_clarification = False, safe_to_continue = True,
                                           reason = lit ''simple permission'' \<rparr>) \<rparr>"


definition T1 :: str where
  "T1 = lit ''ENG-1''"

definition no_sessions :: server where
  "no_sessions = \<lparr> sessions = Map.empty, output_buffers = Map.empty \<rparr>"

definition auto_session :: server where
  "auto_session =
     \<lparr> sessions = [T1 \<mapsto> (new_SessionStatus 0 T1)\<lparr>auto_accept := True, claude_mode := AUTO_ACCEPT\<rparr>],
       output_buffers = [T1 \<mapsto> []] \<rparr>"

definition planned_session :: server where
  "planned_session =
     \<lparr> sessions = [T1 \<mapsto> (new_SessionStatus 0 T1)\<lparr>plan_done := True\<rparr>],
       output_buffers = [T1 \<mapsto> []] \<rparr>"

definition accept_keys :: "str \<Rightarrow> tmux_call list" where
  "accept_keys t = [SendKeys t (lit ''C-u''), SendLiteral t (lit ''1''), SendKeys t (lit ''Enter'')]"

text \<open>
  A screen that shows a prompt, and the same screen one poll later, after a line of
  ordinary output has been added below the prompt.
\<close>

definition prompt_screen :: str where
  "prompt_screen = lit ''Proceed with this change [Y/n]'' @ [10]"

definition grown_screen :: str where
  "grown_screen = prompt_screen @ lit ''Running tests''"

text \<open>
  A screen that ends with a question, and the same screen one poll later, after a line of
  ordinary output has been added below the question.
\<close>

definition asked_screen :: str where
  "asked_screen = lit ''Ready?'' @ [10]"

definition answered_screen :: str where
  "answered_screen = asked_screen @ lit ''Running tests''"

section \<open>Basic facts\<close>

lemma contains_iff: "contains needle hay \<longleftrightarrow> (\<exists>a b. hay = a @ needle @ b)"
proof (induction hay)
  case Nil
  then show ?case by auto
next
  case (Cons c cs)
  show ?case
  proof
    assume "contains needle (c # cs)"
    then consider "prefix needle (c # cs)" | "contains needle cs" by auto
    then show "\<exists>a b. c # cs = a @ needle @ b"
    proof cases
      case 1
      then obtain b where "c # cs = needle @ b" by (auto simp: prefix_def)
      then have "c # cs = [] @ needle @ b" by simp
      then show ?thesis by blast
    next
      case 2
      with Cons.IH obtain a b where "cs = a @ needle @ b" by blast
      then have "c # cs = (c # a) @ needle @ b" by simp
      then show ?thesis by blast
    qed
  next
    assume "\<exists>a b. c # cs = a @ needle @ b"
    then obtain a b where ab: "c # cs = a @ needle @ b" by blast
    show "contains needle (c # cs)"
    proof (cases a)
      case Nil
      with ab have "prefix needle (c # cs)" by (simp add: prefix_def)
      then show ?thesis by simp
    next
      case (Cons x a')
      with ab have "cs = a' @ needle @ b" by simp
      with Cons.IH have "contains needle cs" by blast
      then show ?thesis by simp
    qed
  qed
qed

lemma split_nl_not_Nil: "split_nl s \<noteq> []"
  by (induction s) auto

lemma length_last_n: "length (last_n n xs) = min n (length xs)"
  by (simp add: last_n_def)

lemma suffix_last_n: "suffix (last_n n xs) xs"
  by (simp add: last_n_def suffix_drop)

lemma length_buffer_append: "length (buffer_append buf d) \<le> 200"
  by (simp add: buffer_append_def length_last_n MAX_BUFFER_LINES_def)

lemma length_buffer_after: "length (buffer_after ds) \<le> 200"
proof (cases ds rule: rev_cases)
  case Nil
  then show ?thesis by (simp add: buffer_after_def)
next
  case (snoc ys y)
  then show ?thesis by (simp add: buffer_after_def length_buffer_append)
qed

lemma output_buffers_set_needs_attention:
  "output_buffers (set_needs_attention t v srv) = output_buffers srv"
  by (simp add: set_needs_attention_def split: option.splits)

lemma sessions_set_needs_attention:
  "sessions (set_needs_attention t v srv) =
     (case sessions srv t of
        None \<Rightarrow> sessions srv
      | Some s \<Rightarrow> (sessions srv)(t \<mapsto> s\<lparr>needs_attention := v\<rparr>))"
  by (simp add: set_needs_attention_def split: option.splits)

text \<open>
  An iteration leaves the buffers alone or appends one delta to the buffer of its ticket.
\<close>

lemma iteration_buffers:
  "output_buffers (server_after (stream_output_iteration e t cap srv last_output)) = output_buffers srv
   \<or> (\<exists>d. output_buffers (server_after (stream_output_iteration e t cap srv last_output)) =
        (output_buffers srv)
          (t \<mapsto> buffer_append (case output_buffers srv t of None \<Rightarrow> [] | Some b \<Rightarrow> b) d))"
  by (auto simp: stream_output_iteration_def idle_def Let_def output_buffers_set_needs_attention
           split: capture.splits)

lemma iteration_bounded:
  assumes "buffer_bounded srv u"
  shows "buffer_bounded (server_after (stream_output_iteration e t cap srv last_output)) u"
  using iteration_buffers [of e t cap srv last_output] assms
  by (auto simp: buffer_bounded_def length_buffer_append MAX_BUFFER_LINES_def
           split: option.splits if_splits)

lemma stream_output_bounded:
  "buffer_bounded srv u \<Longrightarrow> buffer_bounded (fst (stream_output e t caps srv last_output)) u"
proof (induction caps arbitrary: srv last_output)
  case Nil
  then show ?case by simp
next
  case (Cons cap caps)
  from Cons.prems
  have b: "buffer_bounded (server_after (stream_output_iteration e t cap srv last_output)) u"
    by (rule iteration_bounded)
  show ?case
  proof (cases "goes_on (stream_output_iteration e t cap srv last_output)")
    case True
    with Cons.IH [OF b] show ?thesis by (simp add: Let_def)
  next
    case False
    with b show ?thesis by (simp add: Let_def)
  qed
qed

section \<open>The matcher decides the language of the pattern\<close>

lemma nullable_lang: "nullable r \<longleftrightarrow> [] \<in> lang ic r"
  by (induction r) (auto intro: star.intros)

lemma lang_alt: "lang ic (alt r s) = lang ic r \<union> lang ic s"
  by (induction r s rule: alt.induct) auto

lemma lang_cat: "lang ic (cat r s) = {w. \<exists>u v. w = u @ v \<and> u \<in> lang ic r \<and> v \<in> lang ic s}"
  by (induction r s rule: cat.induct) auto

lemma star_cons:
  "c # w \<in> star A \<longleftrightarrow> (\<exists>u v. w = u @ v \<and> c # u \<in> A \<and> v \<in> star A)"
proof
  assume "c # w \<in> star A"
  then show "\<exists>u v. w = u @ v \<and> c # u \<in> A \<and> v \<in> star A"
  proof (induction "c # w" arbitrary: w rule: star.induct)
    case (star_more u v)
    show ?case
    proof (cases u)
      case Nil
      with star_more show ?thesis by simp
    next
      case (Cons x u')
      with star_more.hyps have "w = u' @ v" "c # u' \<in> A" "v \<in> star A" by auto
      then show ?thesis by blast
    qed
  qed
next
  assume "\<exists>u v. w = u @ v \<and> c # u \<in> A \<and> v \<in> star A"
  then obtain u v where "w = u @ v" "c # u \<in> A" "v \<in> star A" by blast
  then have "(c # u) @ v \<in> star A" by (intro star_more)
  with \<open>w = u @ v\<close> show "c # w \<in> star A" by simp
qed

lemma lang_deriv: "w \<in> lang ic (deriv ic c r) \<longleftrightarrow> c # w \<in> lang ic r"
proof (induction r arbitrary: w)
  case (Cat r s)
  have split: "c # w \<in> lang ic (Cat r s) \<longleftrightarrow>
      ([] \<in> lang ic r \<and> c # w \<in> lang ic s)
      \<or> (\<exists>u v. w = u @ v \<and> c # u \<in> lang ic r \<and> v \<in> lang ic s)"
  proof
    assume "c # w \<in> lang ic (Cat r s)"
    then obtain u v where uv: "c # w = u @ v" "u \<in> lang ic r" "v \<in> lang ic s" by auto
    show "([] \<in> lang ic r \<and> c # w \<in> lang ic s)
      \<or> (\<exists>u v. w = u @ v \<and> c # u \<in> lang ic r \<and> v \<in> lang ic s)"
    proof (cases u)
      case Nil
      with uv show ?thesis by simp
    next
      case (Cons x u')
      with uv have "w = u' @ v" "c # u' \<in> lang ic r" by auto
      with uv(3) show ?thesis by blast
    qed
  next
    assume "([] \<in> lang ic r \<and> c # w \<in> lang ic s)
      \<or> (\<exists>u v. w = u @ v \<and> c # u \<in> lang ic r \<and> v \<in> lang ic s)"
    then show "c # w \<in> lang ic (Cat r s)"
    proof
      assume "[] \<in> lang ic r \<and> c # w \<in> lang ic s"
      then have "c # w = [] @ (c # w) \<and> [] \<in> lang ic r \<and> c # w \<in> lang ic s" by simp
      then show ?thesis unfolding lang.simps by blast
    next
      assume "\<exists>u v. w = u @ v \<and> c # u \<in> lang ic r \<and> v \<in> lang ic s"
      then obtain u v where "w = u @ v" "c # u \<in> lang ic r" "v \<in> lang ic s" by blast
      then have "c # w = (c # u) @ v \<and> c # u \<in> lang ic r \<and> v \<in> lang ic s" by simp
      then show ?thesis unfolding lang.simps by blast
    qed
  qed
  show ?case
    by (simp only: split) (auto simp: lang_alt lang_cat Cat.IH nullable_lang [of r ic])
next
  case (Star r)
  show ?case
    by (simp add: lang_cat star_cons Star.IH)
qed (auto simp: lang_alt)

lemma re_match_Cons:
  "re_match ic r (c # cs) = (nullable r \<or> re_match ic (deriv ic c r) cs)"
  by (cases r) simp_all

lemma re_match_Nil: "re_match ic r [] = nullable r"
  by (cases r) simp_all

text \<open>\<open>re_match\<close> holds when some prefix of the subject is in the language.\<close>

lemma re_match_lang: "re_match ic r s \<longleftrightarrow> (\<exists>u v. s = u @ v \<and> u \<in> lang ic r)"
proof (induction s arbitrary: r)
  case Nil
  show ?case by (simp add: re_match_Nil nullable_lang [of r ic])
next
  case (Cons c cs)
  show ?case
  proof
    assume "re_match ic r (c # cs)"
    then consider "nullable r" | "re_match ic (deriv ic c r) cs"
      by (auto simp: re_match_Cons)
    then show "\<exists>u v. c # cs = u @ v \<and> u \<in> lang ic r"
    proof cases
      case 1
      then have "c # cs = [] @ (c # cs) \<and> [] \<in> lang ic r" by (simp add: nullable_lang [of r ic])
      then show ?thesis by blast
    next
      case 2
      with Cons.IH obtain u v where "cs = u @ v" "u \<in> lang ic (deriv ic c r)" by blast
      then have "c # cs = (c # u) @ v \<and> c # u \<in> lang ic r" by (simp add: lang_deriv)
      then show ?thesis by blast
    qed
  next
    assume "\<exists>u v. c # cs = u @ v \<and> u \<in> lang ic r"
    then obtain u v where uv: "c # cs = u @ v" "u \<in> lang ic r" by blast
    show "re_match ic r (c # cs)"
    proof (cases u)
      case Nil
      with uv have "nullable r" by (simp add: nullable_lang [of r ic])
      then show ?thesis by (simp add: re_match_Cons)
    next
      case (Cons x u')
      with uv have "cs = u' @ v" "u' \<in> lang ic (deriv ic c r)" by (auto simp: lang_deriv)
      with Cons.IH have "re_match ic (deriv ic c r) cs" by blast
      then show ?thesis by (simp add: re_match_Cons)
    qed
  qed
qed

text \<open>\<open>re_search\<close> holds when some contiguous part of the subject is in the language.\<close>

lemma re_search_lang: "re_search ic r s \<longleftrightarrow> (\<exists>a u b. s = a @ u @ b \<and> u \<in> lang ic r)"
proof (induction s)
  case Nil
  show ?case by (simp add: nullable_lang [of r ic])
next
  case (Cons c cs)
  show ?case
  proof
    assume "re_search ic r (c # cs)"
    then consider "re_match ic r (c # cs)" | "re_search ic r cs" by auto
    then show "\<exists>a u b. c # cs = a @ u @ b \<and> u \<in> lang ic r"
    proof cases
      case 1
      then obtain u v where "c # cs = u @ v" "u \<in> lang ic r" by (auto simp: re_match_lang)
      then have "c # cs = [] @ u @ v \<and> u \<in> lang ic r" by simp
      then show ?thesis by blast
    next
      case 2
      with Cons.IH obtain a u b where "cs = a @ u @ b" "u \<in> lang ic r" by blast
      then have "c # cs = (c # a) @ u @ b \<and> u \<in> lang ic r" by simp
      then show ?thesis by blast
    qed
  next
    assume "\<exists>a u b. c # cs = a @ u @ b \<and> u \<in> lang ic r"
    then obtain a u b where aub: "c # cs = a @ u @ b" "u \<in> lang ic r" by blast
    show "re_search ic r (c # cs)"
    proof (cases a)
      case Nil
      with aub have "re_match ic r (c # cs)" by (auto simp: re_match_lang)
      then show ?thesis by simp
    next
      case (Cons x a')
      with aub have "cs = a' @ u @ b" by simp
      with aub(2) Cons.IH have "re_search ic r cs" by blast
      then show ?thesis by simp
    qed
  qed
qed

text \<open>A literal pattern without the flag is a substring test.\<close>

lemma lang_word: "lang False (word w) = {w}"
  by (induction w rule: word.induct) (auto simp: chr_matches_def)

lemma re_search_word: "re_search False (word w) s \<longleftrightarrow> contains w s"
  by (simp add: re_search_lang lang_word contains_iff)

section \<open>C6: the output buffer is a bounded FIFO\<close>

text \<open>
  Claim C6.  An append keeps the last 200 lines of the old buffer followed by the lines of
  the delta: the result is a suffix of that sequence (new lines at the newest end, the
  oldest lines dropped first) and its length is the smaller of 200 and the length of that
  sequence.  Hence a buffer built from the empty buffer by any sequence of appends has at
  most 200 lines, and the polling loop, run on any captures, keeps every buffer that had at
  most 200 lines within that bound.
\<close>

theorem output_buffer_fifo_bound:
  "length (buffer_append buf d) = min 200 (length buf + length (split_nl d))
   \<and> suffix (buffer_append buf d) (buf @ split_nl d)
   \<and> length (buffer_after deltas) \<le> 200
   \<and> (buffer_bounded srv u \<longrightarrow> buffer_bounded (fst (stream_output e t caps srv last_output)) u)"
proof -
  have 1: "length (buffer_append buf d) = min 200 (length buf + length (split_nl d))"
    by (simp add: buffer_append_def length_last_n MAX_BUFFER_LINES_def)
  have 2: "suffix (buffer_append buf d) (buf @ split_nl d)"
    by (simp add: buffer_append_def suffix_last_n)
  show ?thesis
    using 1 2 length_buffer_after [of deltas] stream_output_bounded [of srv u e t caps last_output]
    by blast
qed

text \<open>
  A buffer of 199 lines receives a delta of two lines: the oldest line is dropped and the
  buffer has 200 lines.  The loop, started without any buffer, keeps the bound.
\<close>

theorem output_buffer_fifo_bound_witness:
  "buffer_append (replicate 199 []) (lit ''x'' @ [10] @ lit ''y'') = replicate 198 [] @ [lit ''x'', lit ''y'']
   \<and> length (buffer_append (replicate 199 []) (lit ''x'' @ [10] @ lit ''y'')) = 200
   \<and> buffer_bounded no_sessions T1
   \<and> buffer_bounded (fst (stream_output no_llm T1 [Captured 0 (lit ''line'')] no_sessions [])) T1"
proof -
  have h: "buffer_bounded no_sessions T1"
    by (simp add: buffer_bounded_def no_sessions_def)
  have a: "buffer_append (replicate 199 []) (lit ''x'' @ [10] @ lit ''y'')
           = replicate 198 [] @ [lit ''x'', lit ''y'']"
    by (simp add: buffer_append_def last_n_def MAX_BUFFER_LINES_def lit_def)
  show ?thesis
    using h a output_buffer_fifo_bound [of "replicate 199 []" "lit ''x'' @ [10] @ lit ''y''" "[]"
        no_sessions T1 no_llm T1 "[Captured 0 (lit ''line'')]" "[]"]
    by simp
qed

section \<open>The delta and the stored snapshot\<close>

lemma strip_Nil: "strip [] = []"
  by (simp add: strip_def)

lemma new_content_same: "new_content_of s s = []"
  by (simp add: new_content_of_def)




text \<open>An iteration whose trimmed delta is not empty, written out.\<close>

lemma iteration_active:
  assumes "strip (new_content_of last_output cur) \<noteq> []"
  shows "stream_output_iteration e t (Captured 0 cur) srv last_output =
     (let new_content = new_content_of last_output cur;
          buf = (case output_buffers srv t of None \<Rightarrow> [] | Some b \<Rightarrow> b);
          srv1 = srv\<lparr>output_buffers := (output_buffers srv)(t \<mapsto> buffer_append buf new_content)\<rparr>;
          accepted = auto_accept_if_safe e srv1 t cur;
          srv2 = set_needs_attention t
                   (if fst accepted then False
                    else needs_clarification (check_safety e srv1 t new_content)) srv1;
          ev = \<lparr> ev_ticket = t, ev_content = new_content,
                 ev_needs_attention =
                   (case sessions srv2 t of None \<Rightarrow> False | Some s \<Rightarrow> needs_attention s),
                 ev_auto_accepted = fst accepted \<rparr>
      in \<lparr> goes_on = (send_json e ev \<noteq> Disconnected),
           server_after = srv2,
           last_output_after = (if send_json e ev = Sent then cur else last_output),
           tmux_calls = snd accepted,
           auto_accept_input = Some cur,
           event_out = Some ev \<rparr>)"
proof -
  from assms have "cur \<noteq> last_output"
    using new_content_same strip_Nil by metis
  with assms show ?thesis
    by (simp add: stream_output_iteration_def Let_def)
qed

section \<open>C7: delta computation and snapshot update\<close>




section \<open>Evaluation rules\<close>

text \<open>The definitions that the simplifier unfolds to run the matchers on a concrete text.\<close>

lemmas matcher_defs =
  is_permission_prompt_def needs_human_decision_def PERMISSION_PATTERNS_def
  HUMAN_NEEDED_PATTERNS_def lit_def chr_matches_def tolower_def isspace_def

lemmas heuristic_defs =
  heuristic_needs_clarification_def heuristic_dangerous_def lower_def lower_cp_def lit_def

section \<open>C2: a human-decision match overrides the safety verdict\<close>

text \<open>
  Claim C2.  For every environment (so whatever the safety evaluator would answer), every
  state, every ticket and every text that matches a permission-prompt pattern and a
  human-decision pattern, \<open>auto_accept_if_safe\<close> returns \<open>False\<close> and makes no \<open>tmux\<close>
  call.
\<close>

theorem human_decision_blocks_auto_accept:
  "is_permission_prompt output \<and> needs_human_decision output
     \<longrightarrow> auto_accept_if_safe e srv t output = (False, [])"
  by (simp add: auto_accept_if_safe_def split: option.splits)

lemma prompt_with_free_text_is_permission_prompt:
  "is_permission_prompt (lit ''Do you want to proceed? 1. Yes 3. Type here to tell Claude'')"
  by (simp add: matcher_defs)

lemma prompt_with_free_text_needs_human:
  "needs_human_decision (lit ''Do you want to proceed? 1. Yes 3. Type here to tell Claude'')"
  by (simp add: matcher_defs)

lemma llm_approves_everything:
  "safe_to_continue (check_safety llm_approves srv t output)
   \<and> \<not> needs_clarification (check_safety llm_approves srv t output)"
  by (simp add: check_safety_def ask_llm_def llm_approves_def no_llm_def Let_def)

lemma auto_session_T1: "\<exists>s. sessions auto_session T1 = Some s \<and> auto_accept s"
  by (simp add: auto_session_def)

text \<open>
  A session in auto-accept mode, a service that declares everything safe, and a prompt that
  offers the free-text option: nothing is sent.
\<close>

theorem human_decision_blocks_auto_accept_witness:
  "is_permission_prompt (lit ''Do you want to proceed? 1. Yes 3. Type here to tell Claude'')
   \<and> needs_human_decision (lit ''Do you want to proceed? 1. Yes 3. Type here to tell Claude'')
   \<and> (\<exists>s. sessions auto_session T1 = Some s \<and> auto_accept s)
   \<and> safe_to_continue (check_safety llm_approves auto_session T1
        (lit ''Do you want to proceed? 1. Yes 3. Type here to tell Claude''))
   \<and> \<not> needs_clarification (check_safety llm_approves auto_session T1
        (lit ''Do you want to proceed? 1. Yes 3. Type here to tell Claude''))
   \<and> auto_accept_if_safe llm_approves auto_session T1
        (lit ''Do you want to proceed? 1. Yes 3. Type here to tell Claude'') = (False, [])"
  using prompt_with_free_text_is_permission_prompt prompt_with_free_text_needs_human
    llm_approves_everything auto_session_T1
    human_decision_blocks_auto_accept
      [of "lit ''Do you want to proceed? 1. Yes 3. Type here to tell Claude''"
          llm_approves auto_session T1]
  by blast

section \<open>The two fallback branches of the safety check\<close>

text \<open>The \<open>try\<close> block raises when the service call raises.\<close>

lemma ask_llm_transport:
  "(\<forall>u. client u = Inl ex) \<Longrightarrow> ask_llm e client srv t output = Inl ex"
  by (simp add: ask_llm_def Let_def)

text \<open>It raises as well when the service answers and the answer cannot be parsed or validated.\<close>

lemma ask_llm_malformed:
  "(\<forall>u. \<exists>content. client u = Inr content) \<Longrightarrow> (\<forall>c. loads_validate e c = Inl ex)
     \<Longrightarrow> ask_llm e client srv t output = Inl ex"
proof -
  assume c: "\<forall>u. \<exists>content. client u = Inr content" and v: "\<forall>c. loads_validate e c = Inl ex"
  define user where "user = lit ''Session: '' @ t @ [10] @ lit ''Context:'' @ [10]
      @ join_nl (last_n 50 (case output_buffers srv t of None \<Rightarrow> [] | Some b \<Rightarrow> b)) @ [10, 10]
      @ lit ''Latest output:'' @ [10] @ output"
  from c obtain content where "client user = Inr content" by blast
  with v show ?thesis
    by (simp add: ask_llm_def Let_def user_def)
qed

lemma check_safety_failed:
  assumes "llm_client e = Some client" and "ask_llm e client srv t output = Inl ex"
  shows "check_safety e srv t output =
           \<lparr> needs_clarification = heuristic_needs_clarification output,
             safe_to_continue = True,
             reason = lit ''Safety check failed: '' @ ex \<rparr>"
  using assms by (simp add: check_safety_def)

lemma check_safety_no_llm:
  assumes "llm_client e = None"
  shows "check_safety e srv t output =
           \<lparr> needs_clarification = heuristic_needs_clarification output,
             safe_to_continue = (\<not> heuristic_dangerous output),
             reason = lit ''Pattern match (no LLM configured)'' \<rparr>"
  using assms by (simp add: check_safety_def)

section \<open>C3: a failing classification service fails open\<close>

text \<open>
  Claim C3.  \<open>check_safety\<close> is a total function into responses: no branch of it raises.
  When a service is configured and the \<open>try\<close> block raises \<open>ex\<close>, the response has
  \<open>safe_to_continue\<close> true and the non-empty reason \<open>Safety check failed: \<close> followed by the
  message of \<open>ex\<close>.  The block raises when the call to the service raises (transport
  failure) and when the content it returns is rejected by parsing or validation (malformed
  response).
\<close>

theorem check_safety_fails_open:
  "(llm_client e = Some client \<and> ask_llm e client srv t output = Inl ex
      \<longrightarrow> safe_to_continue (check_safety e srv t output)
          \<and> reason (check_safety e srv t output) = lit ''Safety check failed: '' @ ex
          \<and> reason (check_safety e srv t output) \<noteq> [])
   \<and> ((\<forall>u. client u = Inl ex) \<longrightarrow> ask_llm e client srv t output = Inl ex)
   \<and> ((\<forall>u. \<exists>content. client u = Inr content) \<and> (\<forall>c. loads_validate e c = Inl ex)
      \<longrightarrow> ask_llm e client srv t output = Inl ex)"
  using ask_llm_transport [of client ex e srv t "output"]
        ask_llm_malformed [of client e ex srv t "output"]
  by (auto simp: check_safety_failed lit_def)

text \<open>
  An unreachable service, and a service whose answer is not JSON, on a text that names a
  destructive command: both responses say it is safe to continue.
\<close>

theorem check_safety_fails_open_witness:
  "llm_client llm_unreachable = Some (\<lambda>u. Inl (lit ''Connection error.''))
   \<and> ask_llm llm_unreachable (\<lambda>u. Inl (lit ''Connection error.'')) no_sessions T1 (lit ''rm -rf build'')
       = Inl (lit ''Connection error.'')
   \<and> safe_to_continue (check_safety llm_unreachable no_sessions T1 (lit ''rm -rf build''))
   \<and> reason (check_safety llm_unreachable no_sessions T1 (lit ''rm -rf build''))
       = lit ''Safety check failed: Connection error.''
   \<and> llm_client llm_garbled = Some (\<lambda>u. Inr (Some (lit ''not json'')))
   \<and> ask_llm llm_garbled (\<lambda>u. Inr (Some (lit ''not json''))) no_sessions T1 (lit ''rm -rf build'')
       = Inl (lit ''Expecting value'')
   \<and> safe_to_continue (check_safety llm_garbled no_sessions T1 (lit ''rm -rf build''))
   \<and> reason (check_safety llm_garbled no_sessions T1 (lit ''rm -rf build''))
       = lit ''Safety check failed: Expecting value''"
proof -
  have c1: "llm_client llm_unreachable = Some (\<lambda>u. Inl (lit ''Connection error.''))"
    by (simp add: llm_unreachable_def no_llm_def)
  have c2: "llm_client llm_garbled = Some (\<lambda>u. Inr (Some (lit ''not json'')))"
    by (simp add: llm_garbled_def no_llm_def)
  have v: "\<forall>c. loads_validate llm_garbled c = Inl (lit ''Expecting value'')"
    by (simp add: llm_garbled_def no_llm_def)
  note t1 = check_safety_fails_open [of llm_unreachable "\<lambda>u. Inl (lit ''Connection error.'')"
      no_sessions T1 "lit ''rm -rf build''" "lit ''Connection error.''"]
  note t2 = check_safety_fails_open [of llm_garbled "\<lambda>u. Inr (Some (lit ''not json''))"
      no_sessions T1 "lit ''rm -rf build''" "lit ''Expecting value''"]
  have a1: "ask_llm llm_unreachable (\<lambda>u. Inl (lit ''Connection error.'')) no_sessions T1
              (lit ''rm -rf build'') = Inl (lit ''Connection error.'')"
    using t1 by simp
  have a2: "ask_llm llm_garbled (\<lambda>u. Inr (Some (lit ''not json''))) no_sessions T1
              (lit ''rm -rf build'') = Inl (lit ''Expecting value'')"
    using t2 v by simp
  have r1: "safe_to_continue (check_safety llm_unreachable no_sessions T1 (lit ''rm -rf build''))
     \<and> reason (check_safety llm_unreachable no_sessions T1 (lit ''rm -rf build''))
       = lit ''Safety check failed: '' @ lit ''Connection error.''"
    using t1 c1 a1 by blast
  have r2: "safe_to_continue (check_safety llm_garbled no_sessions T1 (lit ''rm -rf build''))
     \<and> reason (check_safety llm_garbled no_sessions T1 (lit ''rm -rf build''))
       = lit ''Safety check failed: '' @ lit ''Expecting value''"
    using t2 c2 a2 by blast
  have l1: "lit ''Safety check failed: '' @ lit ''Connection error.''
            = lit ''Safety check failed: Connection error.''"
    by (simp add: lit_def)
  have l2: "lit ''Safety check failed: '' @ lit ''Expecting value''
            = lit ''Safety check failed: Expecting value''"
    by (simp add: lit_def)
  show ?thesis
    using c1 c2 a1 a2 r1 r2 l1 l2 by simp
qed

section \<open>C4: what the fallback heuristic returns\<close>

text \<open>
  Claim C4, as the code has it.  Without a configured service, \<open>needs_clarification\<close> says
  whether the text contains a question mark or, in lower case, \<open>would you like\<close>, and
  \<open>safe_to_continue\<close> says that the text in lower case contains none of \<open>delete\<close>,
  \<open>rm -rf\<close>, \<open>force push\<close>, \<open>drop table\<close>.  When a configured service fails,
  \<open>needs_clarification\<close> is computed in the same way and \<open>safe_to_continue\<close> is true,
  whatever the text contains.
\<close>

theorem fallback_heuristic:
  "(llm_client e = None \<longrightarrow>
      needs_clarification (check_safety e srv t output)
        = (contains (lit ''?'') output \<or> contains (lit ''would you like'') (lower output))
      \<and> safe_to_continue (check_safety e srv t output)
        = (\<not> (contains (lit ''delete'') (lower output) \<or> contains (lit ''rm -rf'') (lower output)
              \<or> contains (lit ''force push'') (lower output)
              \<or> contains (lit ''drop table'') (lower output))))
   \<and> (llm_client e = Some client \<and> ask_llm e client srv t output = Inl ex \<longrightarrow>
      needs_clarification (check_safety e srv t output)
        = (contains (lit ''?'') output \<or> contains (lit ''would you like'') (lower output))
      \<and> safe_to_continue (check_safety e srv t output) = True)"
  by (simp add: check_safety_failed check_safety_no_llm heuristic_needs_clarification_def
        heuristic_dangerous_def)

text \<open>
  The claim applies the keyword list on a failure of the service too.  With an unreachable
  service, the text \<open>rm -rf build\<close> contains a listed keyword and is reported safe.
\<close>

theorem fallback_on_failure_counterexample:
  "llm_client llm_unreachable \<noteq> None
   \<and> contains (lit ''rm -rf'') (lower (lit ''rm -rf build''))
   \<and> safe_to_continue (check_safety llm_unreachable no_sessions T1 (lit ''rm -rf build''))
       \<noteq> (\<not> contains (lit ''rm -rf'') (lower (lit ''rm -rf build'')))"
  by (simp add: check_safety_def ask_llm_def llm_unreachable_def no_llm_def Let_def lower_def
        lower_cp_def lit_def)

text \<open>
  The same text without a service and with an unreachable one: it asks a question and
  names a destructive keyword, in capitals.
\<close>

theorem fallback_heuristic_witness:
  "llm_client no_llm = None
   \<and> needs_clarification (check_safety no_llm no_sessions T1 (lit ''Would YOU like to DELETE it''))
   \<and> \<not> safe_to_continue (check_safety no_llm no_sessions T1 (lit ''Would YOU like to DELETE it''))
   \<and> llm_client llm_unreachable = Some (\<lambda>u. Inl (lit ''Connection error.''))
   \<and> ask_llm llm_unreachable (\<lambda>u. Inl (lit ''Connection error.'')) no_sessions T1
        (lit ''Would YOU like to DELETE it'') = Inl (lit ''Connection error.'')
   \<and> needs_clarification
        (check_safety llm_unreachable no_sessions T1 (lit ''Would YOU like to DELETE it''))
   \<and> safe_to_continue
        (check_safety llm_unreachable no_sessions T1 (lit ''Would YOU like to DELETE it''))"
proof -
  have n: "llm_client no_llm = None"
    by (simp add: no_llm_def)
  have c1: "llm_client llm_unreachable = Some (\<lambda>u. Inl (lit ''Connection error.''))"
    by (simp add: llm_unreachable_def no_llm_def)
  have a1: "ask_llm llm_unreachable (\<lambda>u. Inl (lit ''Connection error.'')) no_sessions T1
              (lit ''Would YOU like to DELETE it'') = Inl (lit ''Connection error.'')"
    by (simp add: ask_llm_def Let_def)
  have w: "contains (lit ''would you like'') (lower (lit ''Would YOU like to DELETE it''))"
    by (simp add: lower_def lower_cp_def lit_def)
  have d: "contains (lit ''delete'') (lower (lit ''Would YOU like to DELETE it''))"
    by (simp add: lower_def lower_cp_def lit_def)
  show ?thesis
    using n c1 a1 w d
      fallback_heuristic [of no_llm no_sessions T1 "lit ''Would YOU like to DELETE it''"]
      fallback_heuristic [of llm_unreachable no_sessions T1 "lit ''Would YOU like to DELETE it''"
         "\<lambda>u. Inl (lit ''Connection error.'')" "lit ''Connection error.''"]
    by simp
qed

section \<open>C1: the accept sequence under the fallback heuristic\<close>















section \<open>What a poll hands to whom\<close>

text \<open>
  On a poll whose trimmed delta is not empty, \<open>auto_accept_if_safe\<close> is called with the
  whole new snapshot, and its calls and its verdict are those for the snapshot.  The delta
  is what is appended to the buffer, what the event carries, and what the attention check
  of a poll that did not auto-accept reads: \<open>needs_attention\<close> becomes the
  \<open>needs_clarification\<close> of \<open>check_safety\<close> on the delta, and false after an auto-accept.
\<close>

lemma poll_hands_out:
  assumes "strip (new_content_of last_output cur) \<noteq> []"
  shows "(let it = stream_output_iteration e t (Captured 0 cur) srv last_output;
              new_content = new_content_of last_output cur;
              buf = (case output_buffers srv t of None \<Rightarrow> [] | Some b \<Rightarrow> b);
              srv1 = srv\<lparr>output_buffers := (output_buffers srv)(t \<mapsto> buffer_append buf new_content)\<rparr>;
              accepted = auto_accept_if_safe e srv1 t cur
          in auto_accept_input it = Some cur
             \<and> tmux_calls it = snd accepted
             \<and> map_option ev_auto_accepted (event_out it) = Some (fst accepted)
             \<and> output_buffers (server_after it) t = Some (buffer_append buf new_content)
             \<and> map_option needs_attention (sessions (server_after it) t)
                 = map_option (\<lambda>s. \<not> fst accepted
                                      \<and> needs_clarification (check_safety e srv1 t new_content))
                     (sessions srv t)
             \<and> map_option ev_needs_attention (event_out it)
                 = Some (case sessions srv t of
                           None \<Rightarrow> False
                         | Some s \<Rightarrow> \<not> fst accepted
                                      \<and> needs_clarification (check_safety e srv1 t new_content))
             \<and> map_option ev_content (event_out it) = Some new_content)"
  using assms
  by (simp add: iteration_active Let_def output_buffers_set_needs_attention
        sessions_set_needs_attention split: option.splits)

text \<open>The grown screen: its delta is one line of ordinary output, the prompt is above it.\<close>

lemma grown_delta: "new_content_of prompt_screen grown_screen = lit ''Running tests''"
  by (simp add: new_content_of_def grown_screen_def)

lemma grown_strip: "strip (new_content_of prompt_screen grown_screen) \<noteq> []"
  by (simp add: grown_delta strip_def isspace_def lit_def)

lemma grown_prompt: "is_permission_prompt grown_screen"
  by (simp add: grown_screen_def prompt_screen_def matcher_defs)

lemma grown_no_human: "\<not> needs_human_decision grown_screen"
  by (simp add: grown_screen_def prompt_screen_def matcher_defs)

lemma grown_heuristic: "\<not> heuristic_needs_clarification grown_screen \<and> \<not> heuristic_dangerous grown_screen"
  by (simp add: grown_screen_def prompt_screen_def heuristic_defs)

lemma delta_no_prompt: "\<not> is_permission_prompt (lit ''Running tests'')"
  by (simp add: matcher_defs)

lemma grown_accept:
  "sessions srv T1 = sessions auto_session T1 \<Longrightarrow>
   auto_accept_if_safe no_llm srv T1 grown_screen = (True, accept_keys T1)"
  using grown_prompt grown_no_human grown_heuristic
  by (simp add: auto_accept_if_safe_def check_safety_no_llm accept_keys_def Let_def
        auto_session_def no_llm_def)

text \<open>
  The attention check reads the delta: the screen holds a question, the delta does not,
  and \<open>needs_attention\<close> is false after the poll.
\<close>

lemma answered_delta: "new_content_of asked_screen answered_screen = lit ''Running tests''"
  by (simp add: new_content_of_def answered_screen_def)

lemma answered_strip: "strip (new_content_of asked_screen answered_screen) \<noteq> []"
  by (simp add: answered_delta strip_def isspace_def lit_def)

lemma answered_heuristic:
  "heuristic_needs_clarification answered_screen
   \<and> \<not> heuristic_needs_clarification (lit ''Running tests'')"
  by (simp add: answered_screen_def asked_screen_def heuristic_defs)

lemma attention_reads_delta:
  "heuristic_needs_clarification answered_screen
   \<and> map_option needs_attention
        (sessions (server_after
           (stream_output_iteration no_llm T1 (Captured 0 answered_screen) planned_session asked_screen)) T1)
       = Some False
   \<and> map_option ev_needs_attention
        (event_out
           (stream_output_iteration no_llm T1 (Captured 0 answered_screen) planned_session asked_screen))
       = Some False"
proof -
  have n: "llm_client no_llm = None" by (simp add: no_llm_def)
  have p: "\<exists>s. sessions planned_session T1 = Some s" by (simp add: planned_session_def)
  show ?thesis
    using answered_heuristic p poll_hands_out [OF answered_strip, of no_llm T1 planned_session]
    by (auto simp: Let_def answered_delta check_safety_no_llm n)
qed

lemma delta_not_accepted:
  "auto_accept_if_safe e srv t (lit ''Running tests'') = (False, [])"
  using delta_no_prompt by (simp add: auto_accept_if_safe_def split: option.splits)

section \<open>C5: the text handed to the auto-accept pipeline\<close>

text \<open>
  Claim C5 says that on every poll whose trimmed delta is not empty the auto-accept
  pipeline is called with the ticket and the delta, the text that is appended to the buffer
  and sent to the observers.  The code gives the delta to the buffer, to the attention check
  and to the event, and gives the whole snapshot to \<open>auto_accept_if_safe\<close>.  Here the
  stored snapshot shows a prompt and the new snapshot adds the line \<open>Running tests\<close> below
  it.  The delta is that line; it is no permission prompt, and \<open>auto_accept_if_safe\<close>
  called with it sends nothing.  The poll calls \<open>auto_accept_if_safe\<close> with the whole
  screen instead, finds the prompt that was on the screen at the previous poll already, and
  sends the three keys once more, while buffer and event receive the delta.
\<close>

theorem auto_accept_reads_snapshot_not_delta:
  "strip (new_content_of prompt_screen grown_screen) \<noteq> []
   \<and> new_content_of prompt_screen grown_screen = lit ''Running tests''
   \<and> auto_accept_if_safe no_llm auto_session T1 (new_content_of prompt_screen grown_screen) = (False, [])
   \<and> auto_accept_input
        (stream_output_iteration no_llm T1 (Captured 0 grown_screen) auto_session prompt_screen)
       = Some grown_screen
   \<and> grown_screen \<noteq> new_content_of prompt_screen grown_screen
   \<and> tmux_calls
        (stream_output_iteration no_llm T1 (Captured 0 grown_screen) auto_session prompt_screen)
       = [SendKeys T1 (lit ''C-u''), SendLiteral T1 (lit ''1''), SendKeys T1 (lit ''Enter'')]
   \<and> map_option ev_auto_accepted
        (event_out
           (stream_output_iteration no_llm T1 (Captured 0 grown_screen) auto_session prompt_screen))
       = Some True
   \<and> output_buffers
        (server_after
           (stream_output_iteration no_llm T1 (Captured 0 grown_screen) auto_session prompt_screen)) T1
       = Some [lit ''Running tests'']
   \<and> map_option ev_content
        (event_out
           (stream_output_iteration no_llm T1 (Captured 0 grown_screen) auto_session prompt_screen))
       = Some (lit ''Running tests'')"
proof -
  have ne: "grown_screen \<noteq> lit ''Running tests''"
    by (simp add: grown_screen_def prompt_screen_def lit_def)
  have b: "output_buffers auto_session T1 = Some []"
    by (simp add: auto_session_def)
  have a: "buffer_append [] (lit ''Running tests'') = [lit ''Running tests'']"
    by (simp add: buffer_append_def last_n_def MAX_BUFFER_LINES_def lit_def)
  have acc: "auto_accept_if_safe no_llm
               (auto_session\<lparr>output_buffers := (output_buffers auto_session)(T1 \<mapsto> [lit ''Running tests''])\<rparr>)
               T1 grown_screen = (True, accept_keys T1)"
    by (rule grown_accept) simp
  have st: "strip (lit ''Running tests'') \<noteq> []"
    using grown_strip by (simp add: grown_delta)
  show ?thesis
    using ne st poll_hands_out [OF grown_strip, of no_llm T1 auto_session]
    by (simp add: Let_def grown_delta delta_not_accepted b a acc accept_keys_def)
qed

section \<open>What the registry operations write\<close>

lemma sessions_ensure_session:
  "sessions (ensure_session e t srv) =
     (case sessions srv t of
        None \<Rightarrow> (sessions srv)(t \<mapsto> new_SessionStatus (class_loaded e) t)
      | Some s \<Rightarrow> sessions srv)"
  by (simp add: ensure_session_def split: option.splits)

lemma sessions_modify_session:
  "sessions (modify_session t f srv) =
     (case sessions srv t of None \<Rightarrow> sessions srv | Some s \<Rightarrow> (sessions srv)(t \<mapsto> f s))"
  by (simp add: modify_session_def split: option.splits)

lemma stage_map_cases:
  "stage_map stage =
     (if stage = lit ''linear'' then Some (\<lambda>d s. s\<lparr>linear_pulled := d\<rparr>)
      else if stage = lit ''specify'' then Some (\<lambda>d s. s\<lparr>specify_done := d\<rparr>)
      else if stage = lit ''clarify'' then Some (\<lambda>d s. s\<lparr>clarify_done := d\<rparr>)
      else if stage = lit ''plan'' then Some (\<lambda>d s. s\<lparr>plan_done := d\<rparr>)
      else if stage = lit ''tasks'' then Some (\<lambda>d s. s\<lparr>tasks_done := d\<rparr>)
      else if stage = lit ''implement'' then Some (\<lambda>d s. s\<lparr>implement_done := d\<rparr>)
      else None)"
  by (simp add: stage_map_def)

lemma stage_names_distinct:
  "distinct [lit ''linear'', lit ''specify'', lit ''clarify'', lit ''plan'', lit ''tasks'', lit ''implement'']"
  by (simp add: lit_def)

lemma update_stage_record:
  "sessions (snd (update_stage e t stage done srv)) t =
     Some (let before = (case sessions srv t of None \<Rightarrow> new_SessionStatus (class_loaded e) t | Some s \<Rightarrow> s)
           in case stage_map stage of None \<Rightarrow> before | Some setattr \<Rightarrow> setattr done before)"
  by (simp add: update_stage_def Let_def sessions_ensure_session sessions_modify_session
           split: option.splits)

lemma update_stage_others:
  "u \<noteq> t \<Longrightarrow> sessions (snd (update_stage e t stage done srv)) u = sessions srv u"
  by (simp add: update_stage_def Let_def sessions_ensure_session sessions_modify_session
           split: option.splits)

lemma update_stage_flags:
  "map_option stage_flags (sessions (snd (update_stage e t stage done srv)) t) =
     Some (let before = (case sessions srv t of None \<Rightarrow> new_SessionStatus (class_loaded e) t | Some s \<Rightarrow> s)
           in [ if stage = lit ''linear'' then done else linear_pulled before,
                if stage = lit ''specify'' then done else specify_done before,
                if stage = lit ''clarify'' then done else clarify_done before,
                if stage = lit ''plan'' then done else plan_done before,
                if stage = lit ''tasks'' then done else tasks_done before,
                if stage = lit ''implement'' then done else implement_done before ])"
  using stage_names_distinct
  by (simp add: update_stage_record stage_map_cases Let_def stage_flags_def)

lemma set_linear_info_record:
  "sessions (snd (set_linear_info e t title description srv)) t =
     Some ((case sessions srv t of None \<Rightarrow> new_SessionStatus (class_loaded e) t | Some s \<Rightarrow> s)
             \<lparr>linear_title := title, linear_description := description\<rparr>)"
  by (simp add: set_linear_info_def Let_def sessions_ensure_session sessions_modify_session
           split: option.splits)

lemma set_claude_mode_record:
  "sessions (snd (set_claude_mode e t mode srv)) t =
     Some ((case sessions srv t of None \<Rightarrow> new_SessionStatus (class_loaded e) t | Some s \<Rightarrow> s)
             \<lparr>claude_mode := (if mode = lit ''auto_accept'' then AUTO_ACCEPT else ClaudeMode.PLANNING),
              auto_accept := (mode = lit ''auto_accept'')\<rparr>)"
  by (simp add: set_claude_mode_def Let_def sessions_ensure_session sessions_modify_session
           split: option.splits)

lemma register_tickets_keeps:
  "sessions srv u = Some s \<Longrightarrow> sessions (register_tickets e ts srv) u = Some s"
proof (induction ts arbitrary: srv)
  case Nil
  then show ?case by simp
next
  case (Cons a ts)
  show ?case
  proof (cases "sessions srv a")
    case None
    with Cons.prems have "a \<noteq> u" by auto
    then have "sessions (srv\<lparr> sessions := (sessions srv)(a \<mapsto> new_SessionStatus (class_loaded e) a),
                                 output_buffers := (output_buffers srv)(a \<mapsto> []) \<rparr>) u = Some s"
      using Cons.prems by simp
    from Cons.IH [OF this] None show ?thesis by simp
  next
    case (Some r)
    with Cons.IH [OF Cons.prems] show ?thesis by simp
  qed
qed

lemma iteration_sessions:
  "sessions (server_after (stream_output_iteration e t cap srv last_output)) = sessions srv
   \<or> (\<exists>v s. sessions srv t = Some s \<and>
         sessions (server_after (stream_output_iteration e t cap srv last_output))
           = (sessions srv)(t \<mapsto> s\<lparr>needs_attention := v\<rparr>))"
  by (auto simp: stream_output_iteration_def idle_def Let_def sessions_set_needs_attention
           split: capture.splits option.splits)

lemma iteration_keeps_flags:
  assumes "sessions srv u = Some s"
  shows "map_option stage_flags
           (sessions (server_after (stream_output_iteration e t cap srv last_output)) u)
         = Some (stage_flags s)"
  using iteration_sessions [of e t cap srv last_output] assms
  by (auto simp: stage_flags_def)

section \<open>C8: who writes the stage flags\<close>

text \<open>
  Claim C8, as the code has it.  \<open>update_stage\<close> with one of the six stage names writes the
  given value of \<open>done\<close>, true or false, into the flag of that stage and leaves the other
  five flags as they were; with any other stage name it changes no flag; it does not touch
  the records of other tickets.  The metadata update, the mode update, the registration of
  tickets and a polling iteration leave all six flags of an existing record as they were.
\<close>

theorem stage_flags_written_by_update_stage:
  "map_option stage_flags (sessions (snd (update_stage e t stage done srv)) t) =
     Some (let before = (case sessions srv t of
                           None \<Rightarrow> new_SessionStatus (class_loaded e) t
                         | Some s \<Rightarrow> s)
           in [ if stage = lit ''linear'' then done else linear_pulled before,
                if stage = lit ''specify'' then done else specify_done before,
                if stage = lit ''clarify'' then done else clarify_done before,
                if stage = lit ''plan'' then done else plan_done before,
                if stage = lit ''tasks'' then done else tasks_done before,
                if stage = lit ''implement'' then done else implement_done before ])
   \<and> (u \<noteq> t \<longrightarrow> sessions (snd (update_stage e t stage done srv)) u = sessions srv u)
   \<and> (sessions srv t = Some s \<longrightarrow>
        map_option stage_flags (sessions (snd (set_linear_info e t title description srv)) t)
          = Some (stage_flags s)
        \<and> map_option stage_flags (sessions (snd (set_claude_mode e t mode srv)) t)
          = Some (stage_flags s)
        \<and> map_option stage_flags (sessions (register_tickets e ts srv) t) = Some (stage_flags s)
        \<and> map_option stage_flags
             (sessions (server_after (stream_output_iteration e v cap srv last_output)) t)
          = Some (stage_flags s))"
  using update_stage_flags [of e t stage "done" srv] update_stage_others [of u t e stage "done" srv]
    register_tickets_keeps [of srv t s e ts] iteration_keeps_flags [of srv t s e v cap last_output]
  by (simp add: set_linear_info_record set_claude_mode_record stage_flags_def)

text \<open>
  The claim says that a flag that is set cannot be reset through \<open>update_stage\<close>.  A record
  whose \<open>plan_done\<close> is true has it false after \<open>update_stage\<close> for the stage \<open>plan\<close> with
  \<open>done\<close> false.
\<close>

theorem stage_flag_reverts_counterexample:
  "map_option plan_done (sessions planned_session T1) = Some True
   \<and> map_option plan_done
        (sessions (snd (update_stage no_llm T1 (lit ''plan'') False planned_session)) T1)
       = Some False"
  by (simp add: update_stage_record stage_map_cases Let_def planned_session_def lit_def)

text \<open>
  On a record with only \<open>plan_done\<close> set: marking \<open>tasks\<close> sets a second flag, unmarking
  \<open>plan\<close> clears the first, an unknown stage name and the other operations change nothing.
\<close>

theorem stage_flags_written_by_update_stage_witness:
  "sessions planned_session T1 = Some ((new_SessionStatus 0 T1)\<lparr>plan_done := True\<rparr>)
   \<and> map_option stage_flags
        (sessions (snd (update_stage no_llm T1 (lit ''tasks'') True planned_session)) T1)
       = Some [False, False, False, True, True, False]
   \<and> map_option stage_flags
        (sessions (snd (update_stage no_llm T1 (lit ''plan'') False planned_session)) T1)
       = Some [False, False, False, False, False, False]
   \<and> map_option stage_flags
        (sessions (snd (update_stage no_llm T1 (lit ''deploy'') True planned_session)) T1)
       = Some [False, False, False, True, False, False]
   \<and> map_option stage_flags
        (sessions (snd (set_claude_mode no_llm T1 (lit ''auto_accept'') planned_session)) T1)
       = Some [False, False, False, True, False, False]
   \<and> map_option stage_flags
        (sessions (snd (set_linear_info no_llm T1 (lit ''Title'') (lit ''Text'') planned_session)) T1)
       = Some [False, False, False, True, False, False]"
proof -
  have p: "sessions planned_session T1 = Some ((new_SessionStatus 0 T1)\<lparr>plan_done := True\<rparr>)"
    by (simp add: planned_session_def)
  have f: "stage_flags ((new_SessionStatus 0 T1)\<lparr>plan_done := True\<rparr>)
           = [False, False, False, True, False, False]"
    by (simp add: stage_flags_def new_SessionStatus_def)
  note w = stage_flags_written_by_update_stage [where e = no_llm and t = T1 and srv = planned_session
      and s = "(new_SessionStatus 0 T1)\<lparr>plan_done := True\<rparr>"]
  have 1: "map_option stage_flags
        (sessions (snd (update_stage no_llm T1 (lit ''tasks'') True planned_session)) T1)
       = Some [False, False, False, True, True, False]"
    using w [of "lit ''tasks''" True] p by (simp add: Let_def new_SessionStatus_def lit_def)
  have 2: "map_option stage_flags
        (sessions (snd (update_stage no_llm T1 (lit ''plan'') False planned_session)) T1)
       = Some [False, False, False, False, False, False]"
    using w [of "lit ''plan''" False] p by (simp add: Let_def new_SessionStatus_def lit_def)
  have 3: "map_option stage_flags
        (sessions (snd (update_stage no_llm T1 (lit ''deploy'') True planned_session)) T1)
       = Some [False, False, False, True, False, False]"
    using w [of "lit ''deploy''" True] p by (simp add: Let_def new_SessionStatus_def lit_def)
  have 4: "map_option stage_flags
        (sessions (snd (set_claude_mode no_llm T1 (lit ''auto_accept'') planned_session)) T1)
       = Some [False, False, False, True, False, False]
   \<and> map_option stage_flags
        (sessions (snd (set_linear_info no_llm T1 (lit ''Title'') (lit ''Text'') planned_session)) T1)
       = Some [False, False, False, True, False, False]"
    using w [where title = "lit ''Title''" and description = "lit ''Text''" and mode = "lit ''auto_accept''"] p f
    by simp
  show ?thesis using p 1 2 3 4 by simp
qed

section \<open>C9: a write to an unknown ticket creates its record\<close>

text \<open>
  Claim C9.  When the registry has no record for the ticket, each of the three write
  operations reports success and leaves a record for the ticket: the record that
  \<open>SessionStatus(ticket=t)\<close> builds from the defaults, with the write applied to it (the
  stage flag, when the stage name is known; title and description; mode and
  \<open>auto_accept\<close>).
\<close>

theorem unknown_session_is_upserted:
  "sessions srv t = None \<longrightarrow>
     fst (update_stage e t stage done srv) = True
     \<and> sessions (snd (update_stage e t stage done srv)) t
         = Some (case stage_map stage of
                   None \<Rightarrow> new_SessionStatus (class_loaded e) t
                 | Some setattr \<Rightarrow> setattr done (new_SessionStatus (class_loaded e) t))
     \<and> fst (set_linear_info e t title description srv) = True
     \<and> sessions (snd (set_linear_info e t title description srv)) t
         = Some ((new_SessionStatus (class_loaded e) t)
                   \<lparr>linear_title := title, linear_description := description\<rparr>)
     \<and> fst (set_claude_mode e t mode srv) = (True, mode)
     \<and> sessions (snd (set_claude_mode e t mode srv)) t
         = Some ((new_SessionStatus (class_loaded e) t)
                   \<lparr>claude_mode := (if mode = lit ''auto_accept'' then AUTO_ACCEPT
                                    else ClaudeMode.PLANNING),
                    auto_accept := (mode = lit ''auto_accept'')\<rparr>)
     \<and> t \<in> dom (sessions (snd (update_stage e t stage done srv)))
     \<and> t \<in> dom (sessions (snd (set_linear_info e t title description srv)))
     \<and> t \<in> dom (sessions (snd (set_claude_mode e t mode srv)))"
proof
  assume n: "sessions srv t = None"
  have 1: "fst (update_stage e t stage done srv) = True"
    by (simp add: update_stage_def Let_def split: option.splits)
  have 2: "fst (set_linear_info e t title description srv) = True"
    by (simp add: set_linear_info_def Let_def)
  have 3: "fst (set_claude_mode e t mode srv) = (True, mode)"
    by (simp add: set_claude_mode_def Let_def)
  have 4: "sessions (snd (update_stage e t stage done srv)) t
         = Some (case stage_map stage of
                   None \<Rightarrow> new_SessionStatus (class_loaded e) t
                 | Some setattr \<Rightarrow> setattr done (new_SessionStatus (class_loaded e) t))"
    using n by (simp add: update_stage_record Let_def)
  have 5: "sessions (snd (set_linear_info e t title description srv)) t
         = Some ((new_SessionStatus (class_loaded e) t)
                   \<lparr>linear_title := title, linear_description := description\<rparr>)"
    using n by (simp add: set_linear_info_record)
  have 6: "sessions (snd (set_claude_mode e t mode srv)) t
         = Some ((new_SessionStatus (class_loaded e) t)
                   \<lparr>claude_mode := (if mode = lit ''auto_accept'' then AUTO_ACCEPT
                                    else ClaudeMode.PLANNING),
                    auto_accept := (mode = lit ''auto_accept'')\<rparr>)"
    using n by (simp add: set_claude_mode_record)
  show "fst (update_stage e t stage done srv) = True
     \<and> sessions (snd (update_stage e t stage done srv)) t
         = Some (case stage_map stage of
                   None \<Rightarrow> new_SessionStatus (class_loaded e) t
                 | Some setattr \<Rightarrow> setattr done (new_SessionStatus (class_loaded e) t))
     \<and> fst (set_linear_info e t title description srv) = True
     \<and> sessions (snd (set_linear_info e t title description srv)) t
         = Some ((new_SessionStatus (class_loaded e) t)
                   \<lparr>linear_title := title, linear_description := description\<rparr>)
     \<and> fst (set_claude_mode e t mode srv) = (True, mode)
     \<and> sessions (snd (set_claude_mode e t mode srv)) t
         = Some ((new_SessionStatus (class_loaded e) t)
                   \<lparr>claude_mode := (if mode = lit ''auto_accept'' then AUTO_ACCEPT
                                    else ClaudeMode.PLANNING),
                    auto_accept := (mode = lit ''auto_accept'')\<rparr>)
     \<and> t \<in> dom (sessions (snd (update_stage e t stage done srv)))
     \<and> t \<in> dom (sessions (snd (set_linear_info e t title description srv)))
     \<and> t \<in> dom (sessions (snd (set_claude_mode e t mode srv)))"
    using 1 2 3 4 5 6 by (simp add: domIff)
qed

text \<open>The three operations on a registry without any record.\<close>

theorem unknown_session_is_upserted_witness:
  "sessions no_sessions T1 = None
   \<and> fst (update_stage no_llm T1 (lit ''plan'') True no_sessions) = True
   \<and> sessions (snd (update_stage no_llm T1 (lit ''plan'') True no_sessions)) T1
       = Some ((new_SessionStatus 0 T1)\<lparr>plan_done := True\<rparr>)
   \<and> sessions (snd (update_stage no_llm T1 (lit ''deploy'') True no_sessions)) T1
       = Some (new_SessionStatus 0 T1)
   \<and> sessions (snd (set_linear_info no_llm T1 (lit ''Title'') (lit ''Text'') no_sessions)) T1
       = Some ((new_SessionStatus 0 T1)\<lparr>linear_title := lit ''Title'', linear_description := lit ''Text''\<rparr>)
   \<and> fst (set_claude_mode no_llm T1 (lit ''auto_accept'') no_sessions) = (True, lit ''auto_accept'')
   \<and> sessions (snd (set_claude_mode no_llm T1 (lit ''auto_accept'') no_sessions)) T1
       = Some ((new_SessionStatus 0 T1)\<lparr>claude_mode := AUTO_ACCEPT, auto_accept := True\<rparr>)
   \<and> T1 \<in> dom (sessions (snd (set_claude_mode no_llm T1 (lit ''auto_accept'') no_sessions)))"
proof -
  have n: "sessions no_sessions T1 = None"
    by (simp add: no_sessions_def)
  have c: "class_loaded no_llm = 0"
    by (simp add: no_llm_def)
  have p: "stage_map (lit ''plan'') = Some (\<lambda>d s. s\<lparr>plan_done := d\<rparr>)"
    by (simp add: stage_map_cases lit_def)
  have d: "stage_map (lit ''deploy'') = None"
    by (simp add: stage_map_cases lit_def)
  show ?thesis
    using n c p d
      unknown_session_is_upserted [of no_sessions T1 no_llm "lit ''plan''" True
          "lit ''Title''" "lit ''Text''" "lit ''auto_accept''"]
      unknown_session_is_upserted [of no_sessions T1 no_llm "lit ''deploy''" True
          "lit ''Title''" "lit ''Text''" "lit ''auto_accept''"]
    by simp
qed

section \<open>C10: mode and auto-accept flag agree\<close>

text \<open>
  Claim C10.  \<open>set_claude_mode\<close> always reports success and echoes the mode string.  After
  it the record of the ticket exists, its \<open>auto_accept\<close> is true exactly when its
  \<open>claude_mode\<close> is \<open>AUTO_ACCEPT\<close>; every mode string other than \<open>auto_accept\<close> gives
  \<open>PLANNING\<close> with \<open>auto_accept\<close> false, and \<open>auto_accept\<close> gives \<open>AUTO_ACCEPT\<close> with
  \<open>auto_accept\<close> true.
\<close>

theorem mode_and_auto_accept_agree:
  "fst (set_claude_mode e t mode srv) = (True, mode)
   \<and> (\<exists>s. sessions (snd (set_claude_mode e t mode srv)) t = Some s
          \<and> (auto_accept s \<longleftrightarrow> claude_mode s = AUTO_ACCEPT)
          \<and> (mode \<noteq> lit ''auto_accept'' \<longrightarrow> claude_mode s = ClaudeMode.PLANNING \<and> \<not> auto_accept s)
          \<and> (mode = lit ''auto_accept'' \<longrightarrow> claude_mode s = AUTO_ACCEPT \<and> auto_accept s))"
proof -
  have 3: "fst (set_claude_mode e t mode srv) = (True, mode)"
    by (simp add: set_claude_mode_def Let_def)
  show ?thesis
    using 3 by (simp add: set_claude_mode_record)
qed

text \<open>
  An unrecognised mode string takes a session out of auto-accept mode; the string
  \<open>auto_accept\<close> puts a new session into it.
\<close>

theorem mode_and_auto_accept_agree_witness:
  "lit ''turbo'' \<noteq> lit ''auto_accept''
   \<and> map_option auto_accept (sessions auto_session T1) = Some True
   \<and> fst (set_claude_mode no_llm T1 (lit ''turbo'') auto_session) = (True, lit ''turbo'')
   \<and> map_option claude_mode (sessions (snd (set_claude_mode no_llm T1 (lit ''turbo'') auto_session)) T1)
       = Some ClaudeMode.PLANNING
   \<and> map_option auto_accept (sessions (snd (set_claude_mode no_llm T1 (lit ''turbo'') auto_session)) T1)
       = Some False
   \<and> map_option claude_mode (sessions (snd (set_claude_mode no_llm T1 (lit ''auto_accept'') no_sessions)) T1)
       = Some AUTO_ACCEPT
   \<and> map_option auto_accept (sessions (snd (set_claude_mode no_llm T1 (lit ''auto_accept'') no_sessions)) T1)
       = Some True"
proof -
  have ne: "lit ''turbo'' \<noteq> lit ''auto_accept''"
    by (simp add: lit_def)
  have a: "map_option auto_accept (sessions auto_session T1) = Some True"
    by (simp add: auto_session_def)
  from mode_and_auto_accept_agree [of no_llm T1 "lit ''turbo''" auto_session] ne
  have 1: "fst (set_claude_mode no_llm T1 (lit ''turbo'') auto_session) = (True, lit ''turbo'')
     \<and> map_option claude_mode (sessions (snd (set_claude_mode no_llm T1 (lit ''turbo'') auto_session)) T1)
       = Some ClaudeMode.PLANNING
     \<and> map_option auto_accept (sessions (snd (set_claude_mode no_llm T1 (lit ''turbo'') auto_session)) T1)
       = Some False"
    by auto
  from mode_and_auto_accept_agree [of no_llm T1 "lit ''auto_accept''" no_sessions]
  have 2: "map_option claude_mode (sessions (snd (set_claude_mode no_llm T1 (lit ''auto_accept'') no_sessions)) T1)
       = Some AUTO_ACCEPT
     \<and> map_option auto_accept (sessions (snd (set_claude_mode no_llm T1 (lit ''auto_accept'') no_sessions)) T1)
       = Some True"
    by auto
  show ?thesis using ne a 1 2 by simp
qed

end
